theory Spec2Isabelle
  imports Main
begin

section \<open>The model of \<^verbatim>\<open>sql_dependency_graph/graph.py\<close>\<close>

text \<open>
  A shallow embedding of the graph module: the Dependency Extractor
  (\<^verbatim>\<open>_get_dependencies\<close>), the Artifact Identifier Resolver
  (\<^verbatim>\<open>_convert_path_to_artifact\<close>), the Graph Builder (\<^verbatim>\<open>_get_path_lookup\<close>,
  \<^verbatim>\<open>_create_dependency_graph_helper\<close>, \<^verbatim>\<open>create_dependency_graph\<close>) and the Subgraph
  Extractor (\<^verbatim>\<open>_create_dependency_subgraph\<close>).

  Python strings are modelled as \<^typ>\<open>string\<close> and read as ASCII text: the character
  classes are those of Python's \<^verbatim>\<open>re\<close> module on ASCII. Exceptions are values of the
  type \<open>error\<close>. A dictionary is an association list in insertion order, a set is a list
  read as a set. Where Python leaves an order open, the model either fixes one
  (\<^verbatim>\<open>list(set(...))\<close>, where the theorems speak of the elements only) or takes the choice
  as a parameter (\<^verbatim>\<open>set.pop()\<close>).
\<close>

type_synonym artifact = string

subsection \<open>Dependency Extractor: \<^verbatim>\<open>_get_dependencies\<close>\<close>

text \<open>
  The regular expression is
  \<^verbatim>\<open>(?i)\b(?:FROM|TABLE|INTO|JOIN|UPDATE|DELETE)\s+[`"](.*?)[`"]\<close>.
  Its character classes: \<^verbatim>\<open>\w\<close>, which \<^verbatim>\<open>\b\<close> looks at, is a letter, a digit or
  the underscore; \<^verbatim>\<open>\s\<close> is a tab, line feed, vertical tab, form feed, carriage
  return, one of the four separators 0x1C to 0x1F, or the space; \<^verbatim>\<open>[`"]\<close> is the
  backtick (0x60) or the double quote (0x22); the dot is any character but the line feed.
  Under \<^verbatim>\<open>(?i)\<close> a letter of a keyword matches itself and its lower-case form.
\<close>


definition is_word_char :: "char \<Rightarrow> bool" where
  "is_word_char c =
     (let n = (of_char c :: nat)
      in (48 \<le> n \<and> n \<le> 57) \<or> (65 \<le> n \<and> n \<le> 90) \<or> (97 \<le> n \<and> n \<le> 122) \<or> n = 95)"

definition is_space :: "char \<Rightarrow> bool" where
  "is_space c =
     (let n = (of_char c :: nat)
      in (9 \<le> n \<and> n \<le> 13) \<or> (28 \<le> n \<and> n \<le> 32))"

definition is_delim :: "char \<Rightarrow> bool" where
  "is_delim c = (c = CHR 0x60 \<or> c = CHR 0x22)"

definition newline :: char where
  "newline = CHR 0x0A"

definition ci_eq :: "char \<Rightarrow> char \<Rightarrow> bool" where
  "ci_eq k c = (c = k \<or> (of_char c :: nat) = of_char k + 32)"

text \<open>One keyword, matched at the head of the text; the result is the text after it.\<close>

fun match_ci :: "string \<Rightarrow> string \<Rightarrow> string option" where
  "match_ci [] s = Some s"
| "match_ci (k # ks) [] = None"
| "match_ci (k # ks) (c # cs) = (if ci_eq k c then match_ci ks cs else None)"

definition dependency_keywords :: "string list" where
  "dependency_keywords = [''FROM'', ''TABLE'', ''INTO'', ''JOIN'', ''UPDATE'', ''DELETE'']"

text \<open>
  The rest of the pattern is matched by backtracking, as \<^verbatim>\<open>re\<close> does, each function
  returning the captured group and the text after the whole match.
  \<open>lazy_capture\<close> is \<^verbatim>\<open>(.*?)[`"]\<close>: the lazy group first tries to stop, which needs a
  delimiter next, and otherwise takes one more character, which must not be a line feed.
  \<open>quoted\<close> is \<^verbatim>\<open>[`"](.*?)[`"]\<close>. \<open>spaces_plus\<close> is \<^verbatim>\<open>\s+\<close> before it: greedy, so
  \<open>spaces_star\<close> first tries to take one more whitespace character and comes back to
  \<open>quoted\<close> when that fails. \<open>alternatives\<close> tries the keywords in their order, each
  followed by the rest of the pattern.
\<close>

fun lazy_capture :: "string \<Rightarrow> (string \<times> string) option" where
  "lazy_capture [] = None"
| "lazy_capture (c # cs) =
     (if is_delim c then Some ([], cs)
      else if c = newline then None
      else (case lazy_capture cs of
              None \<Rightarrow> None
            | Some (d, rest) \<Rightarrow> Some (c # d, rest)))"

fun quoted :: "string \<Rightarrow> (string \<times> string) option" where
  "quoted [] = None"
| "quoted (c # cs) = (if is_delim c then lazy_capture cs else None)"

fun spaces_star :: "string \<Rightarrow> (string \<times> string) option" where
  "spaces_star [] = quoted []"
| "spaces_star (c # cs) =
     (if is_space c
      then (case spaces_star cs of
              Some r \<Rightarrow> Some r
            | None \<Rightarrow> quoted (c # cs))
      else quoted (c # cs))"

fun spaces_plus :: "string \<Rightarrow> (string \<times> string) option" where
  "spaces_plus [] = None"
| "spaces_plus (c # cs) = (if is_space c then spaces_star cs else None)"

fun alternatives :: "string list \<Rightarrow> string \<Rightarrow> (string \<times> string) option" where
  "alternatives [] s = None"
| "alternatives (k # ks) s =
     (case match_ci k s of
        None \<Rightarrow> alternatives ks s
      | Some rest \<Rightarrow>
          (case spaces_plus rest of
             Some r \<Rightarrow> Some r
           | None \<Rightarrow> alternatives ks s))"

text \<open>
  \<^verbatim>\<open>\b\<close> between the character before the position (\<open>None\<close> at the start of the text)
  and the text at the position: exactly one side is a word character. \<open>match_at\<close> is the
  whole pattern at one position.
\<close>

definition word_boundary :: "char option \<Rightarrow> string \<Rightarrow> bool" where
  "word_boundary prev s =
     ((case prev of None \<Rightarrow> False | Some p \<Rightarrow> is_word_char p)
        \<noteq> (case s of [] \<Rightarrow> False | c # _ \<Rightarrow> is_word_char c))"

definition match_at :: "char option \<Rightarrow> string \<Rightarrow> (string \<times> string) option" where
  "match_at prev s = (if word_boundary prev s then alternatives dependency_keywords s else None)"

text \<open>A match consumes at least one character: what the scan below needs to terminate.\<close>

lemma lazy_capture_length: "lazy_capture s = Some (d, r) \<Longrightarrow> length r < length s"
  by (induction s arbitrary: d) (auto split: if_splits option.splits)

lemma quoted_length: "quoted s = Some (d, r) \<Longrightarrow> length r < length s"
  by (cases s) (auto split: if_splits dest: lazy_capture_length)

lemma spaces_star_length: "spaces_star s = Some (d, r) \<Longrightarrow> length r < length s"
proof (induction s)
  case Nil
  then show ?case by simp
next
  case (Cons c cs)
  show ?case
  proof (cases "is_space c \<and> spaces_star cs \<noteq> None")
    case True
    with Cons show ?thesis by (auto split: option.splits)
  next
    case False
    with Cons.prems have "quoted (c # cs) = Some (d, r)"
      by (auto split: if_splits option.splits)
    then show ?thesis by (rule quoted_length)
  qed
qed

lemma spaces_plus_length: "spaces_plus s = Some (d, r) \<Longrightarrow> length r < length s"
  by (cases s) (auto split: if_splits dest: spaces_star_length)

lemma match_ci_length: "match_ci k s = Some r \<Longrightarrow> length r \<le> length s"
  by (induction k s rule: match_ci.induct) (auto split: if_splits)

lemma alternatives_length: "alternatives ks s = Some (d, r) \<Longrightarrow> length r < length s"
proof (induction ks)
  case Nil
  then show ?case by simp
next
  case (Cons k ks)
  show ?case
  proof (cases "match_ci k s")
    case None
    with Cons show ?thesis by simp
  next
    case (Some rest)
    show ?thesis
    proof (cases "spaces_plus rest")
      case None
      with Some Cons show ?thesis by simp
    next
      case (Some r')
      with \<open>match_ci k s = Some rest\<close> Cons.prems have "spaces_plus rest = Some (d, r)"
        by simp
      then have "length r < length rest" by (rule spaces_plus_length)
      moreover have "length rest \<le> length s"
        using \<open>match_ci k s = Some rest\<close> by (rule match_ci_length)
      ultimately show ?thesis by simp
    qed
  qed
qed

lemma match_at_length: "match_at prev s = Some (d, r) \<Longrightarrow> length r < length s"
  by (auto simp: match_at_def split: if_splits dest: alternatives_length)

text \<open>
  \<^verbatim>\<open>re.findall\<close>: the text is scanned from left to right; after a match the scan goes on
  behind it, otherwise one character further. With one group in the pattern the result is
  the list of the captured groups. \<open>prev\<close> is the character before the position.
\<close>

function findall :: "char option \<Rightarrow> string \<Rightarrow> string list" where
  "findall prev s =
     (case match_at prev s of
        Some (d, rest) \<Rightarrow>
          d # findall (Some (last (take (length s - length rest) s))) rest
      | None \<Rightarrow>
          (case s of [] \<Rightarrow> [] | c # cs \<Rightarrow> findall (Some c) cs))"
  by pat_completeness auto
termination
  by (relation "measure (\<lambda>(p, s). length s)") (auto dest: match_at_length)

text \<open>
  \<^verbatim>\<open>list(set(re.findall(...)))\<close>: the matches without duplicates. Python leaves the
  order of the list open; the model keeps the order of the last occurrences.
\<close>

definition get_dependencies :: "string \<Rightarrow> string list" where
  "get_dependencies sql = remdups (findall None sql)"



subsection \<open>Errors\<close>

text \<open>
  Every exception the module can raise is a value. The names are the specification's;
  in the source \<open>PathResolutionError\<close> and \<open>InvalidRelationship\<close> are
  \<^verbatim>\<open>AssertionError\<close>s, \<open>MissingRootArtifact\<close> and \<open>HelperNotImplemented\<close> are
  \<^verbatim>\<open>NotImplementedError\<close>s, and \<open>FileReadError\<close> is what \<^verbatim>\<open>open\<close> raises.
\<close>

datatype error =
    PathResolutionError
  | InvalidRelationship
  | MissingRootArtifact
  | HelperNotImplemented
  | FileReadError

subsection \<open>Artifact Identifier Resolver: \<^verbatim>\<open>_convert_path_to_artifact\<close>\<close>

text \<open>
  \<^verbatim>\<open>str.replace(old, new)\<close>: every occurrence of \<open>old\<close>, found from left to right without
  overlap, is replaced by \<open>new\<close>. For the empty \<open>old\<close> Python puts \<open>new\<close> before every
  character and at the end.
\<close>

function str_replace :: "string \<Rightarrow> string \<Rightarrow> string \<Rightarrow> string" where
  "str_replace old new [] = (if old = [] then new else [])"
| "str_replace old new (c # cs) =
     (if old = [] then new @ c # str_replace old new cs
      else if take (length old) (c # cs) = old
        then new @ str_replace old new (drop (length old) (c # cs))
      else c # str_replace old new cs)"
  by pat_completeness auto
termination
  by (relation "measure (\<lambda>(old, new, s). length s)") auto

text \<open>
  The pattern \<^verbatim>\<open>f"{str(sql_dir)}/(.*)"\<close> puts the directory into the regular expression
  as it is. \<open>match_pattern\<close> matches such a pattern at the head of a text: a dot stands
  for any character but the line feed, every other character for itself. It returns the
  text left after the match. This is what Python's \<^verbatim>\<open>re\<close> does as long as the
  directory holds none of the other metacharacters; \<open>plain_dir\<close> says so.
\<close>

fun match_pattern :: "string \<Rightarrow> string \<Rightarrow> string option" where
  "match_pattern [] s = Some s"
| "match_pattern (p # ps) [] = None"
| "match_pattern (p # ps) (c # cs) =
     (if (if p = CHR ''.'' then c \<noteq> newline else c = p) then match_pattern ps cs else None)"



text \<open>
  \<^verbatim>\<open>re.findall(pattern, text)[0]\<close> when there is a match, \<open>None\<close> when the list is
  empty: the leftmost position where the directory pattern matches, and from there the
  group \<^verbatim>\<open>(.*)\<close>, which runs greedily to the end of the line.
\<close>

fun first_match :: "string \<Rightarrow> string \<Rightarrow> string option" where
  "first_match pat [] =
     (case match_pattern pat [] of
        Some rest \<Rightarrow> Some (takeWhile (\<lambda>c. c \<noteq> newline) rest)
      | None \<Rightarrow> None)"
| "first_match pat (c # cs) =
     (case match_pattern pat (c # cs) of
        Some rest \<Rightarrow> Some (takeWhile (\<lambda>c. c \<noteq> newline) rest)
      | None \<Rightarrow> first_match pat cs)"

text \<open>
  The two arguments are the string forms \<^verbatim>\<open>str(Path(sql_dir))\<close> and
  \<^verbatim>\<open>str(Path(artifact_path))\<close>; \<^verbatim>\<open>pathlib\<close> itself is not modelled.
\<close>

definition convert_path_to_artifact :: "string \<Rightarrow> string \<Rightarrow> error + artifact" where
  "convert_path_to_artifact sql_dir artifact_path =
     (case first_match (sql_dir @ ''/'') artifact_path of
        None \<Rightarrow> Inl PathResolutionError
      | Some p \<Rightarrow>
          Inr (str_replace ''.sql'' '''' (str_replace ''.table'' '''' (str_replace ''/'' ''.'' p))))"





subsection \<open>Dependency graphs\<close>

text \<open>
  \<^verbatim>\<open>DependencyGraph = DefaultDict[Artifact, list[Artifact]]\<close>. A Python dictionary keeps
  its keys in insertion order, so the graph is an association list; \<open>map_of\<close> reads it,
  and \<open>dict_set\<close> is the assignment \<^verbatim>\<open>d[k] = v\<close>, which keeps the place of a key that is
  already there.
\<close>

type_synonym dependency_graph = "(artifact \<times> artifact list) list"

fun dict_set :: "'k \<Rightarrow> 'v \<Rightarrow> ('k \<times> 'v) list \<Rightarrow> ('k \<times> 'v) list" where
  "dict_set k v [] = [(k, v)]"
| "dict_set k v (kv # kvs) = (if fst kv = k then (k, v) # kvs else kv # dict_set k v kvs)"

text \<open>
  Python sets are lists read as sets. \<open>set_difference xs ys\<close> is \<^verbatim>\<open>set(xs) - ys\<close>,
  \<open>set_update\<close> is \<^verbatim>\<open>s.update(t)\<close> and \<open>set_add\<close> is \<^verbatim>\<open>s.add(x)\<close>.
\<close>

definition set_difference :: "'a list \<Rightarrow> 'a list \<Rightarrow> 'a list" where
  "set_difference xs ys = filter (\<lambda>x. x \<notin> set ys) (remdups xs)"

definition set_update :: "'a list \<Rightarrow> 'a list \<Rightarrow> 'a list" where
  "set_update s t = s @ filter (\<lambda>x. x \<notin> set s) t"

definition set_add :: "'a \<Rightarrow> 'a list \<Rightarrow> 'a list" where
  "set_add x s = (if x \<in> set s then s else s @ [x])"

subsection \<open>Subgraph Extractor: \<^verbatim>\<open>_create_dependency_subgraph\<close>\<close>

text \<open>
  The measure of the \<^verbatim>\<open>while\<close> loop: twice the number of artifacts of the frontier or
  of the graph's value lists that are not visited yet, plus the number of visited artifacts
  still in the frontier.
\<close>

definition graph_values :: "dependency_graph \<Rightarrow> artifact set" where
  "graph_values g = (\<Union>kv \<in> set g. set (snd kv))"

definition loop_measure :: "dependency_graph \<Rightarrow> artifact list \<Rightarrow> artifact list \<Rightarrow> nat" where
  "loop_measure g lookup_artifacts visited =
     2 * card ((set lookup_artifacts \<union> graph_values g) - set visited)
       + card (set lookup_artifacts \<inter> set visited)"

lemma finite_graph_values: "finite (graph_values g)"
  by (simp add: graph_values_def)

lemma map_of_graph_values: "map_of g x = Some deps \<Longrightarrow> set deps \<subseteq> graph_values g"
proof -
  assume "map_of g x = Some deps"
  then have "(x, deps) \<in> set g" by (rule map_of_SomeD)
  then show ?thesis by (force simp: graph_values_def)
qed

lemma loop_measure_step:
  assumes x: "x \<in> set front"
    and f: "set front' \<subseteq> (set front - {x}) \<union> (ds - set visited)"
    and d: "ds \<subseteq> graph_values g"
  shows "loop_measure g front' (set_add x visited) < loop_measure g front visited"
proof -
  let ?N = "graph_values g"
  let ?A = "(set front \<union> ?N) - set visited"
  let ?B = "set front \<inter> set visited"
  let ?V' = "set (set_add x visited)"
  let ?A' = "(set front' \<union> ?N) - ?V'"
  let ?B' = "set front' \<inter> ?V'"
  have V': "?V' = insert x (set visited)" by (auto simp: set_add_def)
  have finA: "finite ?A" and finB: "finite ?B"
    using finite_graph_values by simp_all
  show ?thesis
  proof (cases "x \<in> set visited")
    case True
    have "?A' \<subseteq> ?A" using f d V' by auto
    then have a: "card ?A' \<le> card ?A" using finA by (rule card_mono [rotated])
    have "?B' \<subseteq> ?B - {x}" using f V' True by auto
    then have "card ?B' \<le> card (?B - {x})" using finB by (intro card_mono) simp_all
    also have "\<dots> < card ?B" using x True finB by (intro card_Diff1_less) simp_all
    finally have "card ?B' < card ?B" .
    with a show ?thesis by (simp add: loop_measure_def)
  next
    case False
    have "?A' \<subseteq> ?A - {x}" using f d V' by auto
    then have "card ?A' \<le> card (?A - {x})" using finA by (intro card_mono) simp_all
    also have "\<dots> < card ?A" using x False finA by (intro card_Diff1_less) simp_all
    finally have a: "card ?A' < card ?A" .
    have "?B' \<subseteq> insert x ?B" using f V' by auto
    then have "card ?B' \<le> card (insert x ?B)" using finB by (intro card_mono) simp_all
    also have "\<dots> \<le> Suc (card ?B)" by (rule card_insert_le_m1) simp_all
    finally have "card ?B' \<le> Suc (card ?B)" .
    with a show ?thesis by (simp add: loop_measure_def)
  qed
qed

text \<open>
  The loop. \<open>lookup_artifacts\<close> is the frontier set, \<open>subgraph_artifacts\<close> the list the
  result is built from, \<open>visited\<close> the visited set. \<^verbatim>\<open>set.pop()\<close> removes an arbitrary
  element: which one is the choice of \<open>sched\<close>, a function from the number of the
  iteration to an index into the frontier, and every theorem below holds for every
  \<open>sched\<close>. \<open>popped\<close> records the elements popped so far, in order; it is not a variable
  of the source and does not influence the run but for numbering the iterations.
\<close>

function subgraph_loop ::
  "(nat \<Rightarrow> nat) \<Rightarrow> dependency_graph \<Rightarrow> artifact list \<Rightarrow> artifact list \<Rightarrow> artifact list
     \<Rightarrow> artifact list \<Rightarrow> artifact list \<times> artifact list \<times> artifact list" where
  "subgraph_loop sched g lookup_artifacts subgraph_artifacts visited popped =
     (if lookup_artifacts = [] then (subgraph_artifacts, visited, popped)
      else
        (case map_of g (lookup_artifacts ! (sched (length popped) mod length lookup_artifacts)) of
           Some deps \<Rightarrow>
             subgraph_loop sched g
               (set_update
                  (removeAll (lookup_artifacts ! (sched (length popped) mod length lookup_artifacts))
                     lookup_artifacts)
                  (set_difference deps visited))
               (subgraph_artifacts @ deps)
               (set_add (lookup_artifacts ! (sched (length popped) mod length lookup_artifacts)) visited)
               (popped @ [lookup_artifacts ! (sched (length popped) mod length lookup_artifacts)])
         | None \<Rightarrow>
             subgraph_loop sched g
               (removeAll (lookup_artifacts ! (sched (length popped) mod length lookup_artifacts))
                  lookup_artifacts)
               (subgraph_artifacts @ [lookup_artifacts ! (sched (length popped) mod length lookup_artifacts)])
               (set_add (lookup_artifacts ! (sched (length popped) mod length lookup_artifacts)) visited)
               (popped @ [lookup_artifacts ! (sched (length popped) mod length lookup_artifacts)])))"
  by pat_completeness auto
termination
proof (relation "measure (\<lambda>(sched, g, front, sa, visited, popped). loop_measure g front visited)")
  show "wf (measure (\<lambda>(sched, g, front, sa, visited, popped). loop_measure g front visited))"
    by simp
next
  fix sched :: "nat \<Rightarrow> nat" and g :: dependency_graph
    and lookup_artifacts subgraph_artifacts visited popped :: "artifact list"
  let ?x = "lookup_artifacts ! (sched (length popped) mod length lookup_artifacts)"
  assume ne: "lookup_artifacts \<noteq> []" and "map_of g ?x = None"
  from ne have x: "?x \<in> set lookup_artifacts" by simp
  have "loop_measure g (removeAll ?x lookup_artifacts) (set_add ?x visited)
          < loop_measure g lookup_artifacts visited"
    by (rule loop_measure_step [OF x, where ds = "{}"]) auto
  then show "((sched, g, removeAll ?x lookup_artifacts, subgraph_artifacts @ [?x],
               set_add ?x visited, popped @ [?x]),
              (sched, g, lookup_artifacts, subgraph_artifacts, visited, popped))
        \<in> measure (\<lambda>(sched, g, front, sa, visited, popped). loop_measure g front visited)"
    by simp
next
  fix sched :: "nat \<Rightarrow> nat" and g :: dependency_graph
    and lookup_artifacts subgraph_artifacts visited popped :: "artifact list"
    and deps :: "artifact list"
  let ?x = "lookup_artifacts ! (sched (length popped) mod length lookup_artifacts)"
  assume ne: "lookup_artifacts \<noteq> []" and m: "map_of g ?x = Some deps"
  from ne have x: "?x \<in> set lookup_artifacts" by simp
  have "loop_measure g (set_update (removeAll ?x lookup_artifacts) (set_difference deps visited))
            (set_add ?x visited)
          < loop_measure g lookup_artifacts visited"
    by (rule loop_measure_step [OF x, where ds = "set deps"])
      (auto simp: set_update_def set_difference_def map_of_graph_values [OF m, THEN subsetD])
  then show "((sched, g, set_update (removeAll ?x lookup_artifacts) (set_difference deps visited),
               subgraph_artifacts @ deps, set_add ?x visited, popped @ [?x]),
              (sched, g, lookup_artifacts, subgraph_artifacts, visited, popped))
        \<in> measure (\<lambda>(sched, g, front, sa, visited, popped). loop_measure g front visited)"
    by simp
qed

declare subgraph_loop.simps [simp del]

text \<open>
  The dictionary comprehension over \<open>subgraph_artifacts\<close>: the artifacts that are keys of
  the graph, each with the graph's own value list.
\<close>

fun build_dict :: "dependency_graph \<Rightarrow> artifact list \<Rightarrow> dependency_graph \<Rightarrow> dependency_graph" where
  "build_dict g [] acc = acc"
| "build_dict g (a # as) acc =
     (case map_of g a of
        Some deps \<Rightarrow> build_dict g as (dict_set a deps acc)
      | None \<Rightarrow> build_dict g as acc)"

definition create_dependency_subgraph ::
  "(nat \<Rightarrow> nat) \<Rightarrow> dependency_graph \<Rightarrow> artifact \<Rightarrow> dependency_graph" where
  "create_dependency_subgraph sched dependency_graph root_artifact =
     (case subgraph_loop sched dependency_graph [root_artifact] [root_artifact] [] [] of
        (subgraph_artifacts, visited, popped) \<Rightarrow> build_dict dependency_graph subgraph_artifacts [])"

text \<open>The visited set and the popped sequence of a run, for the statements about the traversal.\<close>

definition traversal_visited :: "(nat \<Rightarrow> nat) \<Rightarrow> dependency_graph \<Rightarrow> artifact \<Rightarrow> artifact list" where
  "traversal_visited sched g r = fst (snd (subgraph_loop sched g [r] [r] [] []))"

definition traversal_popped :: "(nat \<Rightarrow> nat) \<Rightarrow> dependency_graph \<Rightarrow> artifact \<Rightarrow> artifact list" where
  "traversal_popped sched g r = snd (snd (subgraph_loop sched g [r] [r] [] []))"

text \<open>
  The edges of a graph and the artifacts reachable from a root along them (the root
  included): the notions the specification states the traversal in.
\<close>

definition edges :: "dependency_graph \<Rightarrow> (artifact \<times> artifact) set" where
  "edges g = {(a, b). \<exists>deps. map_of g a = Some deps \<and> b \<in> set deps}"

definition reachable :: "dependency_graph \<Rightarrow> artifact \<Rightarrow> artifact set" where
  "reachable g r = {b. (r, b) \<in> (edges g)\<^sup>*}"


subsection \<open>Graph Builder: \<^verbatim>\<open>_get_path_lookup\<close>, the helper and \<^verbatim>\<open>create_dependency_graph\<close>\<close>

text \<open>
  The file system the builder reads: \<open>rglob_sql d\<close> is the list of paths that
  \<^verbatim>\<open>Path(d).rglob("*.sql")\<close> yields, as strings and in its order; \<open>read_text p\<close> is the
  text of the file at \<open>p\<close>, or \<open>None\<close> when opening or reading it fails. An
  \<open>io_event\<close> records one access to the file system.
\<close>

record filesystem =
  rglob_sql :: "string \<Rightarrow> string list"
  read_text :: "string \<Rightarrow> string option"

datatype io_event = Rglob string | Open string

text \<open>
  The dictionary comprehension of \<^verbatim>\<open>_get_path_lookup\<close>: the paths are resolved in order,
  the first path that does not resolve raises, and a later path with the same artifact
  replaces the earlier one.
\<close>

fun path_lookup_loop ::
  "string \<Rightarrow> string list \<Rightarrow> (artifact \<times> string) list \<Rightarrow> error + (artifact \<times> string) list" where
  "path_lookup_loop sql_dir [] acc = Inr acc"
| "path_lookup_loop sql_dir (sql_path # sql_paths) acc =
     (case convert_path_to_artifact sql_dir sql_path of
        Inl e \<Rightarrow> Inl e
      | Inr a \<Rightarrow> path_lookup_loop sql_dir sql_paths (dict_set a sql_path acc))"

definition get_path_lookup :: "filesystem \<Rightarrow> string \<Rightarrow> error + (artifact \<times> string) list" where
  "get_path_lookup fs sql_dir = path_lookup_loop sql_dir (rglob_sql fs sql_dir) []"

text \<open>
  \<^verbatim>\<open>dependency_graph[dependency].append(artifact)\<close> on a \<^verbatim>\<open>defaultdict(list)\<close>: a missing
  key is created with the empty list first.
\<close>

definition dict_append :: "artifact \<Rightarrow> artifact \<Rightarrow> dependency_graph \<Rightarrow> dependency_graph" where
  "dict_append k a g =
     dict_set k ((case map_of g k of None \<Rightarrow> [] | Some vs \<Rightarrow> vs) @ [a]) g"

definition create_dependency_graph_helper ::
  "artifact \<Rightarrow> artifact list \<Rightarrow> dependency_graph \<Rightarrow> string \<Rightarrow> error + dependency_graph" where
  "create_dependency_graph_helper artifact dependencies dependency_graph relationship =
     (if relationship = ''parent''
        then Inr (fold (\<lambda>dependency g. dict_append dependency artifact g) dependencies dependency_graph)
      else if relationship = ''dependency''
        then Inr (dict_set artifact dependencies dependency_graph)
      else Inl HelperNotImplemented)"

text \<open>
  The \<^verbatim>\<open>for artifact in artifacts\<close> loop of \<^verbatim>\<open>create_dependency_graph\<close>, over the entries
  of the path lookup in the order of its keys. Each iteration opens the artifact's file,
  which is recorded at the end of the trace \<open>io\<close>.
\<close>

fun graph_loop ::
  "filesystem \<Rightarrow> string \<Rightarrow> (artifact \<times> string) list \<Rightarrow> dependency_graph \<Rightarrow> io_event list
     \<Rightarrow> (error + dependency_graph) \<times> io_event list" where
  "graph_loop fs relationship [] dependency_graph io = (Inr dependency_graph, io)"
| "graph_loop fs relationship ((artifact, path) # rest) dependency_graph io =
     (case read_text fs path of
        None \<Rightarrow> (Inl FileReadError, io @ [Open path])
      | Some sql \<Rightarrow>
          (case create_dependency_graph_helper artifact (get_dependencies sql)
                  dependency_graph relationship of
             Inl e \<Rightarrow> (Inl e, io @ [Open path])
           | Inr g \<Rightarrow> graph_loop fs relationship rest g (io @ [Open path])))"

text \<open>
  Python's truth value of \<^verbatim>\<open>root_artifact : Optional[str]\<close>: \<^verbatim>\<open>None\<close> and the empty
  string are false.
\<close>

fun truthy :: "string option \<Rightarrow> bool" where
  "truthy None = False"
| "truthy (Some s) = (s \<noteq> [])"

text \<open>
  \<^verbatim>\<open>create_dependency_graph\<close> returns the graph or the error raised, together with the
  trace of its accesses to the file system. \<open>sched\<close> is the order of popping handed to
  the Subgraph Extractor. The \<^verbatim>\<open>assert\<close> is modelled as executed (Python not run with
  \<^verbatim>\<open>-O\<close>).
\<close>

definition create_dependency_graph ::
  "(nat \<Rightarrow> nat) \<Rightarrow> filesystem \<Rightarrow> string \<Rightarrow> string \<Rightarrow> artifact option
     \<Rightarrow> (error + dependency_graph) \<times> io_event list" where
  "create_dependency_graph sched fs sql_dir relationship root_artifact =
     (if relationship \<notin> {''parent'', ''dependency''} then (Inl InvalidRelationship, [])
      else if relationship = ''parent'' \<and> \<not> truthy root_artifact
        then (Inl MissingRootArtifact, [])
      else
        (case get_path_lookup fs sql_dir of
           Inl e \<Rightarrow> (Inl e, [Rglob sql_dir])
         | Inr path_lookup \<Rightarrow>
             (case graph_loop fs relationship path_lookup [] [Rglob sql_dir] of
                (Inl e, io) \<Rightarrow> (Inl e, io)
              | (Inr dependency_graph, io) \<Rightarrow>
                  (case root_artifact of
                     None \<Rightarrow> (Inr dependency_graph, io)
                   | Some r \<Rightarrow>
                       if r \<noteq> []
                       then (Inr (create_dependency_subgraph sched dependency_graph r), io)
                       else (Inr dependency_graph, io)))))"

text \<open>
  The specification's scenario as a file system: below the directory \<^verbatim>\<open>d\<close>, the view
  \<^verbatim>\<open>master_views/customer.sql\<close> reads from two tables, and the table
  \<^verbatim>\<open>master_tables/package.table.sql\<close> has no reference.
\<close>

definition example_fs :: filesystem where
  \<open>example_fs =
     \<lparr>rglob_sql = (\<lambda>d. if d = ''d''
          then [''d/master_views/customer.sql'', ''d/master_tables/package.table.sql'']
          else []),
      read_text = map_of
        [(''d/master_views/customer.sql'',
          ''select * from `master_tables.subscription` join `master_tables.package`''),
         (''d/master_tables/package.table.sql'', ''-- no references'')]\<rparr>\<close>


section \<open>Properties\<close>

text \<open>The definitions that evaluating the model on a concrete input unfolds.\<close>

lemmas char_class_defs = match_at_def word_boundary_def dependency_keywords_def
  is_word_char_def ci_eq_def is_space_def is_delim_def newline_def

lemmas py_set_defs = set_update_def set_difference_def set_add_def


subsection \<open>Lemmas about the Dependency Extractor\<close>















subsection \<open>Lemmas about the Artifact Identifier Resolver\<close>


















subsection \<open>Lemmas about the Subgraph Extractor\<close>

lemma map_of_dict_set: "map_of (dict_set k v d) = (map_of d)(k \<mapsto> v)"
  by (induction d) (auto simp: fun_eq_iff)

lemma keys_dict_set: "fst ` set (dict_set k v d) = insert k (fst ` set d)"
  by (induction d) auto

lemma distinct_dict_set: "distinct (map fst d) \<Longrightarrow> distinct (map fst (dict_set k v d))"
proof (induction d)
  case Nil
  then show ?case by simp
next
  case (Cons kv d)
  show ?case
  proof (cases "fst kv = k")
    case True
    with Cons.prems show ?thesis by simp
  next
    case False
    from Cons.prems have "fst kv \<notin> fst ` set d" and "distinct (map fst d)" by simp_all
    with False Cons.IH show ?thesis by (simp add: keys_dict_set)
  qed
qed

lemma map_of_build_dict:
  "map_of (build_dict g sa acc) k =
     (if k \<in> set sa \<and> map_of g k \<noteq> None then map_of g k else map_of acc k)"
proof (induction sa arbitrary: acc)
  case Nil
  then show ?case by simp
next
  case (Cons a sa)
  show ?case
  proof (cases "map_of g a")
    case None
    with Cons.IH [of acc] show ?thesis by auto
  next
    case (Some deps)
    with Cons.IH [of "dict_set a deps acc"] show ?thesis
      by (auto simp: map_of_dict_set)
  qed
qed

lemma distinct_build_dict:
  "distinct (map fst acc) \<Longrightarrow> distinct (map fst (build_dict g sa acc))"
proof (induction sa arbitrary: acc)
  case Nil
  then show ?case by simp
next
  case (Cons a sa)
  then show ?case
    by (cases "map_of g a") (simp_all add: distinct_dict_set)
qed

lemma edgesI: "map_of g a = Some deps \<Longrightarrow> b \<in> set deps \<Longrightarrow> (a, b) \<in> edges g"
  by (auto simp: edges_def)

lemma reachable_root: "r \<in> reachable g r"
  by (simp add: reachable_def)

lemma reachable_step:
  "a \<in> reachable g r \<Longrightarrow> map_of g a = Some deps \<Longrightarrow> set deps \<subseteq> reachable g r"
proof
  fix b
  assume a: "a \<in> reachable g r" and m: "map_of g a = Some deps" and b: "b \<in> set deps"
  from edgesI [OF m b] a show "b \<in> reachable g r"
    by (auto simp: reachable_def intro: rtrancl_into_rtrancl)
qed

lemma closed_contains_reachable:
  assumes r: "r \<in> S"
    and c: "\<forall>v \<in> S. \<forall>deps. map_of g v = Some deps \<longrightarrow> set deps \<subseteq> S"
  shows "reachable g r \<subseteq> S"
proof
  fix b
  assume "b \<in> reachable g r"
  then have "(r, b) \<in> (edges g)\<^sup>*" by (simp add: reachable_def)
  then show "b \<in> S"
  proof (induction rule: rtrancl_induct)
    case base
    from r show ?case .
  next
    case (step y z)
    from step.hyps(2) obtain deps where "map_of g y = Some deps" "z \<in> set deps"
      by (auto simp: edges_def)
    with c step.IH show ?case by blast
  qed
qed

lemma subgraph_loop_Nil:
  "subgraph_loop sched g [] sa vis pop = (sa, vis, pop)"
  by (subst subgraph_loop.simps) simp

lemma subgraph_loop_None:
  "front \<noteq> [] \<Longrightarrow> map_of g (front ! (sched (length pop) mod length front)) = None \<Longrightarrow>
     subgraph_loop sched g front sa vis pop =
       subgraph_loop sched g
         (removeAll (front ! (sched (length pop) mod length front)) front)
         (sa @ [front ! (sched (length pop) mod length front)])
         (set_add (front ! (sched (length pop) mod length front)) vis)
         (pop @ [front ! (sched (length pop) mod length front)])"
  by (subst subgraph_loop.simps) simp

lemma subgraph_loop_Some:
  "front \<noteq> [] \<Longrightarrow> map_of g (front ! (sched (length pop) mod length front)) = Some deps \<Longrightarrow>
     subgraph_loop sched g front sa vis pop =
       subgraph_loop sched g
         (set_update (removeAll (front ! (sched (length pop) mod length front)) front)
            (set_difference deps vis))
         (sa @ deps)
         (set_add (front ! (sched (length pop) mod length front)) vis)
         (pop @ [front ! (sched (length pop) mod length front)])"
  by (subst subgraph_loop.simps) simp

lemma set_set_update: "set (set_update s t) = set s \<union> set t"
  by (auto simp: set_update_def)

lemma set_set_difference: "set (set_difference xs ys) = set xs - set ys"
  by (auto simp: set_difference_def)

lemma set_set_add: "set (set_add x s) = insert x (set s)"
  by (auto simp: set_add_def)

lemma subgraph_loop_reachable:
  assumes "subgraph_loop sched g front sa vis pop = (sa', vis', pop')"
    and "set front \<union> set vis \<subseteq> set sa"
    and "set sa \<subseteq> reachable g r"
    and "r \<in> set vis \<union> set front"
    and "\<forall>v \<in> set vis. \<forall>deps. map_of g v = Some deps \<longrightarrow> set deps \<subseteq> set vis \<union> set front"
  shows "set sa' = reachable g r \<and> set vis' = reachable g r"
  using assms
proof (induction sched g front sa vis pop rule: subgraph_loop.induct)
  case (1 sched g front sa vis pop)
  show ?case
  proof (cases "front = []")
    case True
    with "1.prems"(1) have e: "sa' = sa" "vis' = vis" by (simp_all add: subgraph_loop_Nil)
    from True "1.prems"(4,5) have "reachable g r \<subseteq> set vis"
      by (intro closed_contains_reachable) simp_all
    with "1.prems"(2,3) e show ?thesis by auto
  next
    case False
    let ?x = "front ! (sched (length pop) mod length front)"
    from False have x: "?x \<in> set front" by simp
    with "1.prems"(2,3) have xr: "?x \<in> reachable g r" by auto
    show ?thesis
    proof (cases "map_of g ?x")
      case None
      let ?front = "removeAll ?x front"
      from "1.prems"(1)
      have run: "subgraph_loop sched g ?front (sa @ [?x]) (set_add ?x vis) (pop @ [?x])
                   = (sa', vis', pop')"
        by (simp only: subgraph_loop_None [where sched = sched and pop = pop and front = front and g = g, OF False None])
      have i1: "set ?front \<union> set (set_add ?x vis) \<subseteq> set (sa @ [?x])"
        using "1.prems"(2) by (auto simp: set_set_add)
      have i2: "set (sa @ [?x]) \<subseteq> reachable g r"
        using "1.prems"(3) xr by auto
      have i3: "r \<in> set (set_add ?x vis) \<union> set ?front"
        using "1.prems"(4) by (auto simp: set_set_add)
      have i4: "\<forall>v \<in> set (set_add ?x vis). \<forall>deps. map_of g v = Some deps \<longrightarrow>
                  set deps \<subseteq> set (set_add ?x vis) \<union> set ?front"
      proof (intro ballI allI impI)
        fix v deps
        assume v: "v \<in> set (set_add ?x vis)" and m: "map_of g v = Some deps"
        with None have "v \<in> set vis" by (auto simp: set_set_add)
        with "1.prems"(5) m have "set deps \<subseteq> set vis \<union> set front" by blast
        then show "set deps \<subseteq> set (set_add ?x vis) \<union> set ?front"
          by (auto simp: set_set_add)
      qed
      from "1.IH"(1) [OF False None run i1 i2 i3 i4] show ?thesis .
    next
      case (Some deps)
      let ?front = "set_update (removeAll ?x front) (set_difference deps vis)"
      from "1.prems"(1)
      have run: "subgraph_loop sched g ?front (sa @ deps) (set_add ?x vis) (pop @ [?x])
                   = (sa', vis', pop')"
        by (simp only: subgraph_loop_Some [where sched = sched and pop = pop and front = front and g = g, OF False Some])
      have sf: "set ?front = (set front - {?x}) \<union> (set deps - set vis)"
        by (auto simp: set_set_update set_set_difference)
      have i1: "set ?front \<union> set (set_add ?x vis) \<subseteq> set (sa @ deps)"
        using "1.prems"(2) x unfolding sf by (auto simp: set_set_add)
      have i2: "set (sa @ deps) \<subseteq> reachable g r"
        using "1.prems"(3) reachable_step [OF xr Some] by auto
      have i3: "r \<in> set (set_add ?x vis) \<union> set ?front"
        using "1.prems"(4) unfolding sf by (auto simp: set_set_add)
      have i4: "\<forall>v \<in> set (set_add ?x vis). \<forall>ds. map_of g v = Some ds \<longrightarrow>
                  set ds \<subseteq> set (set_add ?x vis) \<union> set ?front"
      proof (intro ballI allI impI)
        fix v ds
        assume v: "v \<in> set (set_add ?x vis)" and m: "map_of g v = Some ds"
        show "set ds \<subseteq> set (set_add ?x vis) \<union> set ?front"
        proof (cases "v = ?x")
          case True
          with m Some have "ds = deps" by simp
          then show ?thesis unfolding sf by (auto simp: set_set_add)
        next
          case False
          with v have "v \<in> set vis" by (auto simp: set_set_add)
          with "1.prems"(5) m have "set ds \<subseteq> set vis \<union> set front" by blast
          then show ?thesis unfolding sf by (auto simp: set_set_add)
        qed
      qed
      from "1.IH"(2) [OF False Some run i1 i2 i3 i4] show ?thesis .
    qed
  qed
qed

lemma traversal_reachable:
  assumes "subgraph_loop sched g [r] [r] [] [] = (sa, vis, pop)"
  shows "set sa = reachable g r \<and> set vis = reachable g r"
  by (rule subgraph_loop_reachable [OF assms]) (simp_all add: reachable_root)

lemma map_of_create_dependency_subgraph:
  "map_of (create_dependency_subgraph sched g r) = map_of g |` reachable g r"
proof -
  obtain sa vis pop where run: "subgraph_loop sched g [r] [r] [] [] = (sa, vis, pop)"
    by (cases "subgraph_loop sched g [r] [r] [] []") auto
  from traversal_reachable [OF run] have sa: "set sa = reachable g r" by simp
  have "map_of (build_dict g sa []) k = (map_of g |` reachable g r) k" for k
    unfolding map_of_build_dict sa by (simp add: restrict_map_def)
  then show ?thesis
    by (simp add: create_dependency_subgraph_def run fun_eq_iff)
qed

lemma distinct_create_dependency_subgraph:
  "distinct (map fst (create_dependency_subgraph sched g r))"
  by (simp add: create_dependency_subgraph_def distinct_build_dict split: prod.splits)

lemma subgraph_loop_counts:
  assumes "subgraph_loop sched g front sa vis pop = (sa', vis', pop')"
    and "\<forall>x. x \<notin> set vis \<longrightarrow> count_list pop x = 0"
    and "\<forall>x. x \<in> set vis \<and> x \<in> set front \<longrightarrow> count_list pop x = 1 \<and> (x, x) \<in> edges g"
    and "\<forall>x. x \<in> set vis \<and> x \<notin> set front \<longrightarrow>
           count_list pop x \<le> (if (x, x) \<in> edges g then 2 else 1)"
  shows "\<forall>x. count_list pop' x \<le> (if (x, x) \<in> edges g then 2 else 1)"
  using assms
proof (induction sched g front sa vis pop rule: subgraph_loop.induct)
  case (1 sched g front sa vis pop)
  show ?case
  proof (cases "front = []")
    case True
    with "1.prems"(1) have e: "pop' = pop" by (simp add: subgraph_loop_Nil)
    show ?thesis
    proof
      fix x
      show "count_list pop' x \<le> (if (x, x) \<in> edges g then 2 else 1)"
      proof (cases "x \<in> set vis")
        case True
        with \<open>front = []\<close> "1.prems"(4) e show ?thesis by simp
      next
        case False
        with "1.prems"(2) e show ?thesis by simp
      qed
    qed
  next
    case False
    let ?x = "front ! (sched (length pop) mod length front)"
    from False have x: "?x \<in> set front" by simp
    show ?thesis
    proof (cases "map_of g ?x")
      case None
      let ?front = "removeAll ?x front"
      from "1.prems"(1)
      have run: "subgraph_loop sched g ?front (sa @ [?x]) (set_add ?x vis) (pop @ [?x])
                   = (sa', vis', pop')"
        by (simp only: subgraph_loop_None [where sched = sched and pop = pop and front = front and g = g, OF False None])
      from None have nl: "(?x, ?x) \<notin> edges g" by (simp add: edges_def)
      with "1.prems"(3) x have xv: "?x \<notin> set vis" by blast
      have j1: "\<forall>y. y \<notin> set (set_add ?x vis) \<longrightarrow> count_list (pop @ [?x]) y = 0"
        using "1.prems"(2) by (simp add: set_set_add)
      have j2: "\<forall>y. y \<in> set (set_add ?x vis) \<and> y \<in> set ?front \<longrightarrow>
                  count_list (pop @ [?x]) y = 1 \<and> (y, y) \<in> edges g"
        using "1.prems"(3) by (auto simp: set_set_add)
      have j3: "\<forall>y. y \<in> set (set_add ?x vis) \<and> y \<notin> set ?front \<longrightarrow>
                  count_list (pop @ [?x]) y \<le> (if (y, y) \<in> edges g then 2 else 1)"
      proof (intro allI impI)
        fix y
        assume a: "y \<in> set (set_add ?x vis) \<and> y \<notin> set ?front"
        show "count_list (pop @ [?x]) y \<le> (if (y, y) \<in> edges g then 2 else 1)"
        proof (cases "y = ?x")
          case True
          with xv "1.prems"(2) show ?thesis by simp
        next
          case False
          with a have "y \<in> set vis \<and> y \<notin> set front" by (auto simp: set_set_add)
          with "1.prems"(4) False show ?thesis by simp
        qed
      qed
      from "1.IH"(1) [OF False None run j1 j2 j3] show ?thesis .
    next
      case (Some deps)
      let ?front = "set_update (removeAll ?x front) (set_difference deps vis)"
      from "1.prems"(1)
      have run: "subgraph_loop sched g ?front (sa @ deps) (set_add ?x vis) (pop @ [?x])
                   = (sa', vis', pop')"
        by (simp only: subgraph_loop_Some [where sched = sched and pop = pop and front = front and g = g, OF False Some])
      have sf: "set ?front = (set front - {?x}) \<union> (set deps - set vis)"
        by (auto simp: set_set_update set_set_difference)
      have j1: "\<forall>y. y \<notin> set (set_add ?x vis) \<longrightarrow> count_list (pop @ [?x]) y = 0"
        using "1.prems"(2) by (simp add: set_set_add)
      have j2: "\<forall>y. y \<in> set (set_add ?x vis) \<and> y \<in> set ?front \<longrightarrow>
                  count_list (pop @ [?x]) y = 1 \<and> (y, y) \<in> edges g"
      proof (intro allI impI)
        fix y
        assume a: "y \<in> set (set_add ?x vis) \<and> y \<in> set ?front"
        show "count_list (pop @ [?x]) y = 1 \<and> (y, y) \<in> edges g"
        proof (cases "y = ?x")
          case True
          with a have "?x \<in> set deps" and xv: "?x \<notin> set vis" unfolding sf by auto
          with Some have "(?x, ?x) \<in> edges g" by (auto intro: edgesI)
          with xv "1.prems"(2) True show ?thesis by simp
        next
          case False
          with a have "y \<in> set vis \<and> y \<in> set front" unfolding sf by (auto simp: set_set_add)
          with "1.prems"(3) False show ?thesis by simp
        qed
      qed
      have j3: "\<forall>y. y \<in> set (set_add ?x vis) \<and> y \<notin> set ?front \<longrightarrow>
                  count_list (pop @ [?x]) y \<le> (if (y, y) \<in> edges g then 2 else 1)"
      proof (intro allI impI)
        fix y
        assume a: "y \<in> set (set_add ?x vis) \<and> y \<notin> set ?front"
        show "count_list (pop @ [?x]) y \<le> (if (y, y) \<in> edges g then 2 else 1)"
        proof (cases "y = ?x")
          case True
          show ?thesis
          proof (cases "?x \<in> set vis")
            case True
            with "1.prems"(3) x have "count_list pop ?x = 1 \<and> (?x, ?x) \<in> edges g" by blast
            with \<open>y = ?x\<close> show ?thesis by simp
          next
            case False
            with "1.prems"(2) \<open>y = ?x\<close> show ?thesis by simp
          qed
        next
          case False
          with a have "y \<in> set vis \<and> y \<notin> set front" unfolding sf by (auto simp: set_set_add)
          with "1.prems"(4) False show ?thesis by simp
        qed
      qed
      from "1.IH"(2) [OF False Some run j1 j2 j3] show ?thesis .
    qed
  qed
qed

lemma subgraph_loop_popped_visited:
  assumes "subgraph_loop sched g front sa vis pop = (sa', vis', pop')"
    and "set pop \<subseteq> set vis"
  shows "set pop' \<subseteq> set vis'"
  using assms
proof (induction sched g front sa vis pop rule: subgraph_loop.induct)
  case (1 sched g front sa vis pop)
  show ?case
  proof (cases "front = []")
    case True
    with "1.prems" show ?thesis by (simp add: subgraph_loop_Nil)
  next
    case False
    let ?x = "front ! (sched (length pop) mod length front)"
    have inv: "set (pop @ [?x]) \<subseteq> set (set_add ?x vis)"
      using "1.prems"(2) by (auto simp: set_set_add)
    show ?thesis
    proof (cases "map_of g ?x")
      case None
      from "1.prems"(1)
      have run: "subgraph_loop sched g (removeAll ?x front) (sa @ [?x]) (set_add ?x vis) (pop @ [?x])
                   = (sa', vis', pop')"
        by (simp only: subgraph_loop_None [where sched = sched and pop = pop and front = front and g = g, OF False None])
      from "1.IH"(1) [OF False None run inv] show ?thesis .
    next
      case (Some deps)
      from "1.prems"(1)
      have run: "subgraph_loop sched g (set_update (removeAll ?x front) (set_difference deps vis))
                   (sa @ deps) (set_add ?x vis) (pop @ [?x]) = (sa', vis', pop')"
        by (simp only: subgraph_loop_Some [where sched = sched and pop = pop and front = front and g = g, OF False Some])
      from "1.IH"(2) [OF False Some run inv] show ?thesis .
    qed
  qed
qed

lemma finite_reachable: "finite (reachable g r)"
proof -
  obtain sa vis pop where run: "subgraph_loop (\<lambda>_. 0) g [r] [r] [] [] = (sa, vis, pop)"
    by (cases "subgraph_loop (\<lambda>_. 0) g [r] [r] [] []") auto
  from traversal_reachable [OF run] have "reachable g r = set vis" by simp
  then show ?thesis by simp
qed

lemma reachable_restrict:
  assumes "map_of g' = map_of g |` reachable g r"
  shows "reachable g r \<subseteq> reachable g' r"
proof
  fix b
  assume "b \<in> reachable g r"
  then have "(r, b) \<in> (edges g)\<^sup>*" by (simp add: reachable_def)
  then have "(r, b) \<in> (edges g')\<^sup>*"
  proof (induction rule: rtrancl_induct)
    case base
    show ?case by simp
  next
    case (step y z)
    from step.hyps(1) have y: "y \<in> reachable g r" by (simp add: reachable_def)
    from step.hyps(2) obtain deps where "map_of g y = Some deps" "z \<in> set deps"
      by (auto simp: edges_def)
    with y assms have "map_of g' y = Some deps" by simp
    then have "(y, z) \<in> edges g'" using \<open>z \<in> set deps\<close> by (rule edgesI)
    with step.IH show ?case by (rule rtrancl_into_rtrancl)
  qed
  then show "b \<in> reachable g' r" by (simp add: reachable_def)
qed

lemma restrict_map_dom_subset:
  assumes "dom m \<subseteq> S"
  shows "m |` S = m"
proof (rule ext)
  fix x
  show "(m |` S) x = m x"
  proof (cases "x \<in> S")
    case True
    then show ?thesis by simp
  next
    case False
    with assms have "x \<notin> dom m" by blast
    then have "m x = None" by (simp add: domIff)
    with False show ?thesis by simp
  qed
qed



subsection \<open>Lemmas about the Graph Builder\<close>

lemma path_lookup_loop_distinct:
  "path_lookup_loop sql_dir ps acc = Inr pl \<Longrightarrow> distinct (map fst acc) \<Longrightarrow> distinct (map fst pl)"
proof (induction ps arbitrary: acc)
  case Nil
  then show ?case by simp
next
  case (Cons p ps)
  from Cons.prems(1) obtain a where a: "convert_path_to_artifact sql_dir p = Inr a"
    and l: "path_lookup_loop sql_dir ps (dict_set a p acc) = Inr pl"
    by (auto split: sum.splits)
  from Cons.prems(2) have "distinct (map fst (dict_set a p acc))"
    by (rule distinct_dict_set)
  with Cons.IH [OF l] show ?case .
qed

lemma get_path_lookup_distinct:
  "get_path_lookup fs sql_dir = Inr pl \<Longrightarrow> distinct (map fst pl)"
  unfolding get_path_lookup_def by (erule path_lookup_loop_distinct) simp

lemma graph_loop_dependency:
  assumes "graph_loop fs ''dependency'' pl g io = (Inr g', io')"
    and "distinct (map fst pl)"
  shows "dom (map_of g') = dom (map_of g) \<union> fst ` set pl
       \<and> (\<forall>(a, p) \<in> set pl. \<exists>sql. read_text fs p = Some sql
              \<and> map_of g' a = Some (get_dependencies sql))
       \<and> (\<forall>k. k \<notin> fst ` set pl \<longrightarrow> map_of g' k = map_of g k)"
  using assms
proof (induction pl arbitrary: g io)
  case Nil
  then show ?case by simp
next
  case (Cons ap pl)
  obtain a p where ap: "ap = (a, p)" by (cases ap)
  from Cons.prems(1) ap obtain sql where r: "read_text fs p = Some sql"
    and l: "graph_loop fs ''dependency'' pl (dict_set a (get_dependencies sql) g) (io @ [Open p])
              = (Inr g', io')"
    by (auto simp: create_dependency_graph_helper_def split: option.splits)
  from Cons.prems(2) ap have d: "distinct (map fst pl)" and n: "a \<notin> fst ` set pl"
    by simp_all
  from Cons.IH [OF l d] have
    i1: "dom (map_of g') = dom (map_of (dict_set a (get_dependencies sql) g)) \<union> fst ` set pl"
    and i2: "\<forall>(a, p) \<in> set pl. \<exists>sql. read_text fs p = Some sql
              \<and> map_of g' a = Some (get_dependencies sql)"
    and i3: "\<forall>k. k \<notin> fst ` set pl \<longrightarrow>
               map_of g' k = map_of (dict_set a (get_dependencies sql) g) k"
    by simp_all
  from i3 n have here: "map_of g' a = Some (get_dependencies sql)"
    by (simp add: map_of_dict_set)
  have "dom (map_of g') = dom (map_of g) \<union> fst ` set (ap # pl)"
    using i1 ap by (auto simp: map_of_dict_set)
  moreover have "\<forall>(a, p) \<in> set (ap # pl). \<exists>sql. read_text fs p = Some sql
              \<and> map_of g' a = Some (get_dependencies sql)"
    using i2 here r ap by simp
  moreover have "\<forall>k. k \<notin> fst ` set (ap # pl) \<longrightarrow> map_of g' k = map_of g k"
    using i3 ap by (simp add: map_of_dict_set)
  ultimately show ?case by blast
qed

text \<open>The two scenarios of the specification, run on \<open>example_fs\<close>.\<close>

lemma example_dependency_run:
  \<open>create_dependency_graph (\<lambda>_. 0) example_fs ''d'' ''dependency'' None =
     (Inr [(''master_views.customer'', [''master_tables.subscription'', ''master_tables.package'']),
           (''master_tables.package'', [])],
      [Rglob ''d'', Open ''d/master_views/customer.sql'',
       Open ''d/master_tables/package.table.sql''])\<close>
  by (simp add: create_dependency_graph_def get_path_lookup_def example_fs_def
      convert_path_to_artifact_def create_dependency_graph_helper_def
      get_dependencies_def char_class_defs)

lemma example_parent_run:
  \<open>create_dependency_graph (\<lambda>_. 0) example_fs ''d'' ''parent'' (Some ''master_tables.package'') =
     (Inr [(''master_tables.package'', [''master_views.customer''])],
      [Rglob ''d'', Open ''d/master_views/customer.sql'',
       Open ''d/master_tables/package.table.sql''])\<close>
  by (simp add: create_dependency_graph_def get_path_lookup_def example_fs_def
      convert_path_to_artifact_def create_dependency_graph_helper_def dict_append_def
      get_dependencies_def char_class_defs create_dependency_subgraph_def
      subgraph_loop.simps py_set_defs)


subsection \<open>Claims about the Dependency Extractor\<close>




text \<open>
  C10. The extractor does not guarantee non-empty identifiers: on \<^verbatim>\<open>FROM ""\<close> the
  lazy group matches the empty string between the two quotes, and the result is the list
  holding the empty string.
\<close>

theorem get_dependencies_empty_identifier:
  \<open>get_dependencies ''FROM ""'' = [''''] \<and> '''' \<in> set (get_dependencies ''FROM ""'')\<close>
  by (simp add: get_dependencies_def char_class_defs)

subsection \<open>Claims about the Artifact Identifier Resolver\<close>







subsection \<open>Claims about the Subgraph Extractor\<close>

text \<open>
  C6. For every graph, root and order of popping, the keys of the output are exactly the
  keys of the graph that the traversal visited, and the visited artifacts are exactly those
  reachable from the root; every key of the output has the value list the graph gives it;
  the keys of the output are distinct. So the key set is a subset of the graph's keys, and
  a visited artifact that is no key of the graph is no key of the output.
\<close>

theorem subgraph_keys_and_values:
  "dom (map_of (create_dependency_subgraph sched g r))
      = dom (map_of g) \<inter> set (traversal_visited sched g r)
   \<and> set (traversal_visited sched g r) = reachable g r
   \<and> (\<forall>k \<in> dom (map_of (create_dependency_subgraph sched g r)).
         map_of (create_dependency_subgraph sched g r) k = map_of g k)
   \<and> distinct (map fst (create_dependency_subgraph sched g r))"
proof -
  obtain sa vis pop where run: "subgraph_loop sched g [r] [r] [] [] = (sa, vis, pop)"
    by (cases "subgraph_loop sched g [r] [r] [] []") auto
  from traversal_reachable [OF run] have v: "set (traversal_visited sched g r) = reachable g r"
    by (simp add: traversal_visited_def run)
  have m: "map_of (create_dependency_subgraph sched g r) = map_of g |` reachable g r"
    by (rule map_of_create_dependency_subgraph)
  have "dom (map_of (create_dependency_subgraph sched g r)) = dom (map_of g) \<inter> reachable g r"
    unfolding m by (rule dom_restrict)
  moreover have "\<forall>k \<in> dom (map_of (create_dependency_subgraph sched g r)).
         map_of (create_dependency_subgraph sched g r) k = map_of g k"
    unfolding m by (auto simp: restrict_map_def split: if_splits)
  ultimately show ?thesis
    using v distinct_create_dependency_subgraph by simp
qed

text \<open>
  The theorem on a cyclic graph: from \<^verbatim>\<open>a\<close> the artifact \<^verbatim>\<open>b\<close> is reached and is a
  key of the result with its own value list, and \<^verbatim>\<open>d\<close>, which only points to \<^verbatim>\<open>a\<close>,
  is not.
\<close>

theorem subgraph_keys_and_values_witness:
  "''b'' \<in> dom (map_of (create_dependency_subgraph (\<lambda>_. 0)
        [(''a'', [''b'', ''c'']), (''b'', [''a'']), (''d'', [''a''])] ''a''))
   \<and> map_of (create_dependency_subgraph (\<lambda>_. 0)
        [(''a'', [''b'', ''c'']), (''b'', [''a'']), (''d'', [''a''])] ''a'') ''b''
      = map_of [(''a'', [''b'', ''c'']), (''b'', [''a'']), (''d'', [''a''])] ''b''
   \<and> ''d'' \<notin> dom (map_of (create_dependency_subgraph (\<lambda>_. 0)
        [(''a'', [''b'', ''c'']), (''b'', [''a'']), (''d'', [''a''])] ''a''))"
proof -
  have e: "create_dependency_subgraph (\<lambda>_. 0)
        [(''a'', [''b'', ''c'']), (''b'', [''a'']), (''d'', [''a''])] ''a''
      = [(''a'', [''b'', ''c'']), (''b'', [''a''])]"
    by (simp add: create_dependency_subgraph_def subgraph_loop.simps py_set_defs)
  have b: "''b'' \<in> dom (map_of (create_dependency_subgraph (\<lambda>_. 0)
        [(''a'', [''b'', ''c'']), (''b'', [''a'']), (''d'', [''a''])] ''a''))"
    unfolding e by simp
  have d: "''d'' \<notin> dom (map_of (create_dependency_subgraph (\<lambda>_. 0)
        [(''a'', [''b'', ''c'']), (''b'', [''a'']), (''d'', [''a''])] ''a''))"
    unfolding e by simp
  from subgraph_keys_and_values [of "\<lambda>_. 0"
      "[(''a'', [''b'', ''c'']), (''b'', [''a'']), (''d'', [''a''])]" "''a''"] b d
  show ?thesis by blast
qed

text \<open>
  C7. Extracting the subgraph of an extracted subgraph, from the same root, gives the same
  dictionary: the same keys with the same value lists, whatever the two orders of popping
  (Python's \<^verbatim>\<open>==\<close> on dictionaries does not look at the order of the keys). Both
  results have distinct keys.
\<close>

theorem subgraph_idempotent:
  "map_of (create_dependency_subgraph sched2 (create_dependency_subgraph sched1 g r) r)
      = map_of (create_dependency_subgraph sched1 g r)
   \<and> distinct (map fst (create_dependency_subgraph sched2 (create_dependency_subgraph sched1 g r) r))
   \<and> distinct (map fst (create_dependency_subgraph sched1 g r))"
proof -
  let ?g' = "create_dependency_subgraph sched1 g r"
  have m1: "map_of ?g' = map_of g |` reachable g r"
    by (rule map_of_create_dependency_subgraph)
  have m2: "map_of (create_dependency_subgraph sched2 ?g' r) = map_of ?g' |` reachable ?g' r"
    by (rule map_of_create_dependency_subgraph)
  have "dom (map_of ?g') \<subseteq> reachable g r"
    unfolding m1 by (simp add: dom_restrict)
  also have "\<dots> \<subseteq> reachable ?g' r"
    using m1 by (rule reachable_restrict)
  finally have "dom (map_of ?g') \<subseteq> reachable ?g' r" .
  then have "map_of ?g' |` reachable ?g' r = map_of ?g'"
    by (rule restrict_map_dom_subset)
  with m2 show ?thesis
    by (simp add: distinct_create_dependency_subgraph)
qed

text \<open>
  C8 (as the code has it). The loop terminates on every graph, cyclic or not: the
  definition of \<open>subgraph_loop\<close> rests on the proof that \<open>loop_measure\<close> decreases with
  every iteration. An artifact that does not list itself among its own values is popped at
  most once, no artifact is popped more than twice, only reachable artifacts are popped,
  and so the loop body runs at most twice per reachable artifact.
\<close>

theorem subgraph_loop_bound:
  "(\<forall>x. count_list (traversal_popped sched g r) x \<le> (if (x, x) \<in> edges g then 2 else 1))
   \<and> set (traversal_popped sched g r) \<subseteq> reachable g r
   \<and> length (traversal_popped sched g r) \<le> 2 * card (reachable g r)"
proof -
  obtain sa vis pop where run: "subgraph_loop sched g [r] [r] [] [] = (sa, vis, pop)"
    by (cases "subgraph_loop sched g [r] [r] [] []") auto
  then have p: "traversal_popped sched g r = pop" by (simp add: traversal_popped_def)
  have c: "\<forall>x. count_list pop x \<le> (if (x, x) \<in> edges g then 2 else 1)"
    by (rule subgraph_loop_counts [OF run]) simp_all
  have "set pop \<subseteq> set vis"
    by (rule subgraph_loop_popped_visited [OF run]) simp
  with traversal_reachable [OF run] have s: "set pop \<subseteq> reachable g r" by simp
  have "length pop = sum (count_list pop) (reachable g r)"
    using s finite_reachable by (rule sum_count_set [symmetric])
  also have "\<dots> \<le> sum (\<lambda>x. 2) (reachable g r)"
  proof (rule sum_mono)
    fix x
    from c have "count_list pop x \<le> (if (x, x) \<in> edges g then 2 else 1)" by blast
    then show "count_list pop x \<le> 2" by (simp split: if_splits)
  qed
  also have "\<dots> = 2 * card (reachable g r)" by simp
  finally have "length pop \<le> 2 * card (reachable g r)" .
  with c s p show ?thesis by simp
qed

text \<open>
  C8 as stated fails. The artifacts to enqueue are computed before the popped one is added
  to \<open>visited\<close>, so an artifact that lists itself is enqueued again by its own
  iteration: on the graph \<^verbatim>\<open>{a: [a]}\<close> the loop body runs twice although one artifact is
  reachable.
\<close>

theorem subgraph_loop_self_reference_counterexample:
  "traversal_popped (\<lambda>_. 0) [(''a'', [''a''])] ''a'' = [''a'', ''a'']
   \<and> count_list (traversal_popped (\<lambda>_. 0) [(''a'', [''a''])] ''a'') ''a'' = 2
   \<and> reachable [(''a'', [''a''])] ''a'' = {''a''}
   \<and> card (reachable [(''a'', [''a''])] ''a'') < length (traversal_popped (\<lambda>_. 0) [(''a'', [''a''])] ''a'')"
proof -
  have run: "subgraph_loop (\<lambda>_. 0) [(''a'', [''a''])] [''a''] [''a''] [] []
               = ([''a'', ''a'', ''a''], [''a''], [''a'', ''a''])"
    by (simp add: subgraph_loop.simps py_set_defs)
  then have p: "traversal_popped (\<lambda>_. 0) [(''a'', [''a''])] ''a'' = [''a'', ''a'']"
    by (simp add: traversal_popped_def)
  from traversal_reachable [OF run] have r: "reachable [(''a'', [''a''])] ''a'' = {''a''}"
    by simp
  show ?thesis unfolding p r by simp
qed

subsection \<open>Claims about the Graph Builder\<close>

text \<open>
  C4. A relationship other than \<^verbatim>\<open>parent\<close> and \<^verbatim>\<open>dependency\<close> raises
  \<open>InvalidRelationship\<close>, and \<^verbatim>\<open>parent\<close> with no root artifact (\<^verbatim>\<open>None\<close> or the empty
  string) raises \<open>MissingRootArtifact\<close>; in both cases the trace of file-system accesses
  is empty: nothing was discovered or read before the error.
\<close>

theorem create_dependency_graph_argument_errors:
  "(relationship \<notin> {''parent'', ''dependency''} \<longrightarrow>
      create_dependency_graph sched fs sql_dir relationship root_artifact
        = (Inl InvalidRelationship, []))
   \<and> (relationship = ''parent'' \<and> \<not> truthy root_artifact \<longrightarrow>
      create_dependency_graph sched fs sql_dir relationship root_artifact
        = (Inl MissingRootArtifact, []))"
  by (simp add: create_dependency_graph_def)

text \<open>
  The theorem on \<open>example_fs\<close>, which has files to discover: the relationship
  \<^verbatim>\<open>child\<close>, and \<^verbatim>\<open>parent\<close> without a root.
\<close>

theorem create_dependency_graph_argument_errors_witness:
  \<open>''child'' \<notin> {''parent'', ''dependency''}
   \<and> create_dependency_graph (\<lambda>_. 0) example_fs ''d'' ''child'' (Some ''master_tables.package'')
        = (Inl InvalidRelationship, [])
   \<and> \<not> truthy None
   \<and> create_dependency_graph (\<lambda>_. 0) example_fs ''d'' ''parent'' None
        = (Inl MissingRootArtifact, [])\<close>
  using create_dependency_graph_argument_errors
      [of \<open>''child''\<close> \<open>\<lambda>_. 0\<close> example_fs \<open>''d''\<close> \<open>Some ''master_tables.package''\<close>]
    create_dependency_graph_argument_errors
      [of \<open>''parent''\<close> \<open>\<lambda>_. 0\<close> example_fs \<open>''d''\<close> None]
  by simp

text \<open>
  C5. When a build in \<^verbatim>\<open>dependency\<close> orientation with no root returns a graph, its keys
  are exactly the discovered artifacts, and every discovered artifact is mapped to the
  dependencies extracted from its file, also when there are none.
\<close>

theorem dependency_graph_maps_artifacts:
  assumes "create_dependency_graph sched fs sql_dir ''dependency'' None = (Inr g, io)"
  shows "\<exists>path_lookup. get_path_lookup fs sql_dir = Inr path_lookup
           \<and> dom (map_of g) = fst ` set path_lookup
           \<and> (\<forall>(a, p) \<in> set path_lookup. \<exists>sql. read_text fs p = Some sql
                  \<and> map_of g a = Some (get_dependencies sql))"
proof -
  from assms obtain pl where pl: "get_path_lookup fs sql_dir = Inr pl"
    and l: "graph_loop fs ''dependency'' pl [] [Rglob sql_dir] = (Inr g, io)"
    by (auto simp: create_dependency_graph_def split: sum.splits prod.splits)
  from graph_loop_dependency [OF l get_path_lookup_distinct [OF pl]]
  have "dom (map_of g) = fst ` set pl
       \<and> (\<forall>(a, p) \<in> set pl. \<exists>sql. read_text fs p = Some sql
              \<and> map_of g a = Some (get_dependencies sql))"
    by simp
  with pl show ?thesis by blast
qed

text \<open>
  The theorem on \<open>example_fs\<close>: \<^verbatim>\<open>master_tables.package\<close> is a key with the empty
  list.
\<close>

theorem dependency_graph_maps_artifacts_witness:
  \<open>create_dependency_graph (\<lambda>_. 0) example_fs ''d'' ''dependency'' None =
     (Inr [(''master_views.customer'', [''master_tables.subscription'', ''master_tables.package'']),
           (''master_tables.package'', [])],
      [Rglob ''d'', Open ''d/master_views/customer.sql'',
       Open ''d/master_tables/package.table.sql''])
   \<and> (\<exists>path_lookup. get_path_lookup example_fs ''d'' = Inr path_lookup
         \<and> dom (map_of [(''master_views.customer'',
                           [''master_tables.subscription'', ''master_tables.package'']),
                         (''master_tables.package'', [])])
             = fst ` set path_lookup
         \<and> (\<forall>(a, p) \<in> set path_lookup. \<exists>sql. read_text example_fs p = Some sql
               \<and> map_of [(''master_views.customer'',
                           [''master_tables.subscription'', ''master_tables.package'']),
                          (''master_tables.package'', [])] a
                   = Some (get_dependencies sql)))\<close>
  using dependency_graph_maps_artifacts [OF example_dependency_run] example_dependency_run
  by simp


end
